theory Spec2Isabelle
  imports Complex_Main "HOL-Library.Log_Nat"
begin

section \<open>Red-signal analysis of laparoscopic video: the model\<close>

text \<open>
  The development embeds the pure functions of \<^verbatim>\<open>src/red/redlog.py\<close>,
  \<^verbatim>\<open>src/red/bleed_detector.py\<close> and \<^verbatim>\<open>src/red/bleed_spread.py\<close>.

  Numbers. A Python \<^verbatim>\<open>float\<close> that is used as a continuous quantity (a ratio, a
  threshold, a timestamp, a mean, a standard deviation) is a \<^typ>\<open>real\<close>: the arithmetic
  of the model is exact there, and a theorem about such a value holds for the code up to the
  rounding of binary64. Where a float decides an integer the rounding is not abstracted:
  the product in \<^verbatim>\<open>round(k_s * fps)\<close> is a parameter of the model, and the cell
  bounds \<^verbatim>\<open>int(r * (h / grid_size))\<close> of \<^verbatim>\<open>compute_cell_ratios\<close> are
  computed with binary64 rounding. Python integers are \<^typ>\<open>int\<close>, list positions and
  array sizes \<^typ>\<open>nat\<close>.

  Errors. Every \<^verbatim>\<open>raise\<close> the modelled code can reach is a value \<open>Inl e\<close> of the
  result type.
\<close>

datatype py_error = ValueError | IndexError | ZeroDivisionError

subsection \<open>Python's rounding\<close>

text \<open>
  \<^verbatim>\<open>round(x)\<close> rounds to the nearest integer, a tie to the even one;
  \<^verbatim>\<open>round(x, 6)\<close> does the same at the sixth decimal.
\<close>

definition py_round :: "real \<Rightarrow> int" where
  "py_round x =
     (let f = \<lfloor>x\<rfloor>; d = x - of_int f
      in if d < 1 / 2 then f
         else if 1 / 2 < d then f + 1
         else if even f then f else f + 1)"

definition py_round6 :: "real \<Rightarrow> real" where
  "py_round6 x = of_int (py_round (x * 1000000)) / 1000000"

subsection \<open>redlog.py: event extraction\<close>

record event =
  ev_type :: string
  ev_metric :: string
  ev_thr :: real
  ev_k_s :: real
  ev_smooth_s :: real
  ev_delta_max :: real
  ev_start :: real
  ev_end :: real

text \<open>\<^verbatim>\<open>xs[lo:hi]\<close> for \<open>0 \<le> lo\<close>: the slice is cut at the end of the list.\<close>

definition py_slice :: "'a list \<Rightarrow> nat \<Rightarrow> nat \<Rightarrow> 'a list" where
  "py_slice xs lo hi = take (hi - lo) (drop lo xs)"

text \<open>
  \<^verbatim>\<open>_add_event\<close>: \<^verbatim>\<open>max\<close> of an empty slice raises ValueError, a
  timestamp index past the end of \<^verbatim>\<open>times\<close> (here \<open>ts\<close>) raises IndexError. The slice is
  evaluated first, so \<open>end_idx - 1\<close> is only read when \<open>start_idx < end_idx\<close>.
\<close>

definition add_event ::
  "event list \<Rightarrow> real list \<Rightarrow> real list \<Rightarrow> nat \<Rightarrow> nat \<Rightarrow> real \<Rightarrow> real \<Rightarrow> real
     \<Rightarrow> py_error + event list" where
  "add_event events ts smooth_deltas start_idx end_idx thr k_s smooth_s =
     (let sl = py_slice smooth_deltas start_idx end_idx
      in if sl = [] then Inl ValueError
         else if length ts \<le> start_idx \<or> length ts \<le> end_idx - 1 then Inl IndexError
         else Inr (events @
                [\<lparr>ev_type = ''bleed_candidate'', ev_metric = ''red_ratio'', ev_thr = thr,
                  ev_k_s = k_s, ev_smooth_s = smooth_s,
                  ev_delta_max = py_round6 (Max (set sl)),
                  ev_start = ts ! start_idx, ev_end = ts ! (end_idx - 1)\<rparr>]))"

text \<open>
  \<^verbatim>\<open>min_samples = max(1, int(round(k_s * fps)))\<close>. The product is a float product
  and its rounding can decide the integer, so the multiplication is a parameter \<open>fmul\<close>
  of the model: what is proved for every \<open>fmul\<close> holds for the product as the machine
  rounds it and for the exact one.
\<close>

definition min_samples :: "(real \<Rightarrow> real \<Rightarrow> real) \<Rightarrow> real \<Rightarrow> real \<Rightarrow> int" where
  "min_samples fmul k_s fps = max 1 (py_round (fmul k_s fps))"

text \<open>The state of the scan: \<open>(in_event, start_idx, events)\<close>.\<close>

type_synonym scan_state = "bool \<times> nat \<times> event list"

text \<open>One iteration of the \<^verbatim>\<open>for i in range(n)\<close> loop.\<close>

definition scan_step ::
  "real list \<Rightarrow> real list \<Rightarrow> real \<Rightarrow> real \<Rightarrow> real \<Rightarrow> int \<Rightarrow> nat \<Rightarrow> scan_state
     \<Rightarrow> py_error + scan_state" where
  "scan_step ts smooth_deltas thr k_s smooth_s ms i st =
     (case st of (in_event, start_idx, events) \<Rightarrow>
        (let above = (thr < smooth_deltas ! i)
         in if above \<and> \<not> in_event then Inr (True, i, events)
            else if \<not> above \<and> in_event then
              (if ms \<le> int i - int start_idx then
                 (case add_event events ts smooth_deltas start_idx i thr k_s smooth_s of
                    Inl e \<Rightarrow> Inl e
                  | Inr events' \<Rightarrow> Inr (False, start_idx, events'))
               else Inr (False, start_idx, events))
            else Inr (in_event, start_idx, events)))"

text \<open>A loop over a list of indices that stops at the first error.\<close>

fun run_loop :: "(nat \<Rightarrow> 's \<Rightarrow> 'e + 's) \<Rightarrow> nat list \<Rightarrow> 's \<Rightarrow> 'e + 's" where
  "run_loop f [] s = Inr s"
| "run_loop f (i # is) s = (case f i s of Inl e \<Rightarrow> Inl e | Inr s' \<Rightarrow> run_loop f is s')"

definition extract_bleed_events ::
  "(real \<Rightarrow> real \<Rightarrow> real) \<Rightarrow> real list \<Rightarrow> real list \<Rightarrow> real \<Rightarrow> real \<Rightarrow> real \<Rightarrow> real
     \<Rightarrow> py_error + event list" where
  "extract_bleed_events fmul ts smooth_deltas thr k_s fps smooth_s =
     (let n = length smooth_deltas
      in if n = 0 then Inr []
         else
           (let ms = min_samples fmul k_s fps
            in case run_loop (scan_step ts smooth_deltas thr k_s smooth_s ms) [0..<n]
                      (False, 0, []) of
                 Inl e \<Rightarrow> Inl e
               | Inr (in_event, start_idx, events) \<Rightarrow>
                   if in_event then
                     (if ms \<le> int n - int start_idx then
                        add_event events ts smooth_deltas start_idx n thr k_s smooth_s
                      else Inr events)
                   else Inr events))"

text \<open>
  The record that \<^verbatim>\<open>_add_event\<close> appends for the run \<open>[fst r, snd r)\<close>, and
  the invariant of the scan after the indices below \<open>i\<close>: the events so far are those of
  a list of runs that lie in increasing order, end at or before the current position (at or
  before \<open>start_idx\<close> inside a run) and contain only samples above the threshold.
\<close>

definition event_of :: "real list \<Rightarrow> real list \<Rightarrow> real \<Rightarrow> real \<Rightarrow> real \<Rightarrow> nat \<times> nat \<Rightarrow> event" where
  "event_of ts smooth_deltas thr k_s smooth_s r =
     \<lparr>ev_type = ''bleed_candidate'', ev_metric = ''red_ratio'', ev_thr = thr,
      ev_k_s = k_s, ev_smooth_s = smooth_s,
      ev_delta_max = py_round6 (Max (set (py_slice smooth_deltas (fst r) (snd r)))),
      ev_start = ts ! fst r, ev_end = ts ! (snd r - 1)\<rparr>"

definition scan_inv ::
  "real list \<Rightarrow> real list \<Rightarrow> real \<Rightarrow> real \<Rightarrow> real \<Rightarrow> nat \<Rightarrow> scan_state \<Rightarrow> bool" where
  "scan_inv ts smooth_deltas thr k_s smooth_s i st =
     (case st of (in_event, start_idx, events) \<Rightarrow>
        (\<exists>runs. events = map (event_of ts smooth_deltas thr k_s smooth_s) runs
           \<and> sorted_wrt (\<lambda>r r'. snd r \<le> fst r') runs
           \<and> (\<forall>r \<in> set runs. fst r < snd r
                  \<and> snd r \<le> (if in_event then start_idx else i)
                  \<and> (\<forall>j. fst r \<le> j \<and> j < snd r \<longrightarrow> thr < smooth_deltas ! j))
           \<and> (in_event \<longrightarrow> start_idx < i
                  \<and> (\<forall>j. start_idx \<le> j \<and> j < i \<longrightarrow> thr < smooth_deltas ! j))))"

subsection \<open>redlog.py: centred moving average\<close>

text \<open>
  \<^verbatim>\<open>smooth_center\<close>: \<^verbatim>\<open>window // 2\<close> is floor division; the window
  \<open>[lo, hi)\<close> always contains \<open>i\<close>, so the divisor \<open>hi - lo\<close> is at least 1.
\<close>

definition smooth_center :: "real list \<Rightarrow> int \<Rightarrow> real list" where
  "smooth_center values window =
     (let n = length values
      in if n = 0 \<or> window \<le> 1 then values
         else
           (let half = window div 2
            in map (\<lambda>i. let lo = max 0 (int i - half);
                             hi = min (int n) (int i + half + 1)
                         in sum_list (py_slice values (nat lo) (nat hi)) / of_int (hi - lo))
                   [0..<n]))"

subsection \<open>Grids\<close>

text \<open>
  A two-dimensional numpy array is a list of rows. A mask holds booleans (the source's
  \<^verbatim>\<open>uint8\<close> masks only hold 0 and 255). \<^verbatim>\<open>np.count_nonzero\<close> counts the
  true cells.
\<close>

type_synonym 'a grid = "'a list list"

definition count_nonzero :: "bool grid \<Rightarrow> nat" where
  "count_nonzero m = length (filter id (concat m))"

subsection \<open>redlog.py: the circular region of interest\<close>

definition make_circular_roi :: "nat \<Rightarrow> nat \<Rightarrow> real \<Rightarrow> bool grid" where
  "make_circular_roi height width margin =
     (let cy = real height / 2; cx = real width / 2;
          radius = real (min height width) * (1 / 2 - margin)
      in map (\<lambda>y. map (\<lambda>x. sqrt ((real x - cx)\<^sup>2 + (real y - cy)\<^sup>2) \<le> radius) [0..<width])
             [0..<height])"

subsection \<open>Red masks and ratios (redlog.py, bleed_detector.py)\<close>

text \<open>
  OpenCV is outside the repository: the colour conversions \<^verbatim>\<open>cv2.cvtColor\<close> to HSV and
  to grey act pixel by pixel and are parameters of the model, \<open>hsv_of\<close> (hue, saturation,
  value) and \<open>gray_of\<close>. A numpy array has the shape \<open>(rows, columns)\<close> and all its rows
  have the same length (\<open>is_array\<close>). An elementwise operation on two arrays of different
  shapes is the error ValueError; numpy's broadcasting of unequal shapes is not modelled, and
  every theorem below is about arrays of equal shape.
\<close>

definition shape :: "'a grid \<Rightarrow> nat \<times> nat" where
  "shape a = (length a, if a = [] then 0 else length (hd a))"

definition is_array :: "'a grid \<Rightarrow> bool" where
  "is_array a = (\<forall>row \<in> set a. length row = snd (shape a))"

definition bind_res :: "'e + 'a \<Rightarrow> ('a \<Rightarrow> 'e + 'b) \<Rightarrow> 'e + 'b" where
  "bind_res x f = (case x of Inl e \<Rightarrow> Inl e | Inr v \<Rightarrow> f v)"

definition mask_and :: "bool grid \<Rightarrow> bool grid \<Rightarrow> py_error + bool grid" where
  "mask_and a b = (if shape a = shape b then Inr (map2 (map2 (\<and>)) a b) else Inl ValueError)"

definition mask_or :: "bool grid \<Rightarrow> bool grid \<Rightarrow> py_error + bool grid" where
  "mask_or a b = (if shape a = shape b then Inr (map2 (map2 (\<or>)) a b) else Inl ValueError)"

definition mask_not :: "bool grid \<Rightarrow> bool grid" where
  "mask_not a = map (map Not) a"

text \<open>
  \<^verbatim>\<open>cv2.inRange\<close> with the two hue ranges \<open>[0, 10]\<close> and \<open>[170, 179]\<close>, joined
  by \<^verbatim>\<open>|\<close>.
\<close>

definition red_pixel :: "int \<Rightarrow> int \<Rightarrow> int \<times> int \<times> int \<Rightarrow> bool" where
  "red_pixel s_min v_min hsv =
     (case hsv of (h, s, v) \<Rightarrow>
        (0 \<le> h \<and> h \<le> 10 \<and> s_min \<le> s \<and> s \<le> 255 \<and> v_min \<le> v \<and> v \<le> 255)
      \<or> (170 \<le> h \<and> h \<le> 179 \<and> s_min \<le> s \<and> s \<le> 255 \<and> v_min \<le> v \<and> v \<le> 255))"

definition make_red_mask :: "('p \<Rightarrow> int \<times> int \<times> int) \<Rightarrow> 'p grid \<Rightarrow> int \<Rightarrow> int \<Rightarrow> bool grid" where
  "make_red_mask hsv_of frame_bgr s_min v_min =
     map (map (\<lambda>p. red_pixel s_min v_min (hsv_of p))) frame_bgr"

text \<open>The idiom \<^verbatim>\<open>if roi_mask is not None: mask = mask & roi_u8\<close>.\<close>

definition roi_apply :: "bool grid option \<Rightarrow> bool grid \<Rightarrow> py_error + bool grid" where
  "roi_apply roi_mask m = (case roi_mask of None \<Rightarrow> Inr m | Some roi \<Rightarrow> mask_and m roi)"

text \<open>The denominator: the true pixels of the ROI, or all pixels of the frame.\<close>

definition total_pixels_of :: "bool grid option \<Rightarrow> 'p grid \<Rightarrow> nat" where
  "total_pixels_of roi_mask frame_bgr =
     (case roi_mask of
        None \<Rightarrow> fst (shape frame_bgr) * snd (shape frame_bgr)
      | Some roi \<Rightarrow> count_nonzero roi)"

definition compute_red_ratio ::
  "('p \<Rightarrow> int \<times> int \<times> int) \<Rightarrow> 'p grid \<Rightarrow> bool grid option \<Rightarrow> int \<Rightarrow> int \<Rightarrow> py_error + real" where
  "compute_red_ratio hsv_of frame_bgr roi_mask s_min v_min =
     bind_res (roi_apply roi_mask (make_red_mask hsv_of frame_bgr s_min v_min)) (\<lambda>red_mask.
       let total_pixels = total_pixels_of roi_mask frame_bgr
       in if total_pixels = 0 then Inr 0
          else Inr (real (count_nonzero red_mask) / real total_pixels))"

record expansion =
  red_ratio :: real
  newly_red_ratio :: real
  bg_stability :: real
  red_expansion :: real

text \<open>
  \<^verbatim>\<open>cv2.absdiff\<close> of the two grey images, and the sum of the differences at the
  pixels selected by a mask (\<^verbatim>\<open>np.sum(frame_diff[non_red > 0])\<close>). Both are
  reached only after the red masks of the two frames have been combined, that is with frames
  of equal shape.
\<close>

definition absdiff :: "nat grid \<Rightarrow> nat grid \<Rightarrow> nat grid" where
  "absdiff a b = map2 (map2 (\<lambda>u v. if u \<le> v then v - u else u - v)) a b"

definition masked_sum :: "nat grid \<Rightarrow> bool grid \<Rightarrow> nat" where
  "masked_sum d m = sum_list (map fst (filter snd (zip (concat d) (concat m))))"

text \<open>
  \<^verbatim>\<open>compute_red_expansion\<close>, statement by statement. \<^verbatim>\<open>bg_norm_factor = 0\<close>
  raises ZeroDivisionError at \<^verbatim>\<open>bg_diff / bg_norm_factor\<close>.
\<close>

definition compute_red_expansion ::
  "('p \<Rightarrow> int \<times> int \<times> int) \<Rightarrow> ('p \<Rightarrow> nat) \<Rightarrow> 'p grid \<Rightarrow> 'p grid \<Rightarrow> bool grid option
     \<Rightarrow> int \<Rightarrow> int \<Rightarrow> real \<Rightarrow> py_error + expansion" where
  "compute_red_expansion hsv_of gray_of prev_bgr curr_bgr roi_mask s_min v_min bg_norm_factor =
     bind_res (roi_apply roi_mask (make_red_mask hsv_of prev_bgr s_min v_min)) (\<lambda>red_prev.
     bind_res (roi_apply roi_mask (make_red_mask hsv_of curr_bgr s_min v_min)) (\<lambda>red_curr.
       let total_pixels = total_pixels_of roi_mask curr_bgr
       in if total_pixels = 0 then
            Inr \<lparr>red_ratio = 0, newly_red_ratio = 0, bg_stability = 1, red_expansion = 0\<rparr>
          else
            (let r = real (count_nonzero red_curr) / real total_pixels
             in
            bind_res (mask_and red_curr (mask_not red_prev)) (\<lambda>newly0.
            bind_res (roi_apply roi_mask newly0) (\<lambda>newly_red.
              let n = real (count_nonzero newly_red) / real total_pixels;
                  frame_diff = absdiff (map (map gray_of) prev_bgr) (map (map gray_of) curr_bgr)
              in
            bind_res (mask_or red_prev red_curr) (\<lambda>either_red.
            bind_res (roi_apply roi_mask (mask_not either_red)) (\<lambda>non_red.
              let non_red_count = count_nonzero non_red;
                  bg_diff = (if 0 < non_red_count
                             then real (masked_sum frame_diff non_red) / real non_red_count
                             else 0)
              in if bg_norm_factor = 0 then Inl ZeroDivisionError
                 else
                   (let b = 1 - min (bg_diff / bg_norm_factor) 1
                    in Inr \<lparr>red_ratio = r, newly_red_ratio = n, bg_stability = b,
                            red_expansion = n * b\<rparr>))))))))"

subsection \<open>bleed_spread.py: the spread score\<close>






subsection \<open>bleed_spread.py: the cell grid\<close>

text \<open>
  The cell bounds are \<^verbatim>\<open>int(r * cell_h)\<close> with \<^verbatim>\<open>cell_h = h / grid_size\<close>,
  Python floats. A float is truncated to an integer here, so the rounding of the division
  and of the product decides the bound, and both are computed as Python does, in IEEE 754
  binary64 with rounding to nearest, ties to even. A positive binary64 number is
  \<open>m * 2^e\<close> with a mantissa \<open>m\<close> of 53 bits; the pair \<open>(m, e)\<close> stands for it, \<open>(0, 0)\<close>
  for zero. Overflow and subnormal numbers are out of reach for frame sizes and are not
  modelled.
\<close>

type_synonym dbl = "int \<times> int"

text \<open>The integer nearest to \<open>a / b\<close>, a tie to the even one (\<open>a \<ge> 0\<close>, \<open>b > 0\<close>).\<close>

definition round_half_even_div :: "int \<Rightarrow> int \<Rightarrow> int" where
  "round_half_even_div a b =
     (let q = a div b; r = a mod b
      in if 2 * r < b then q
         else if b < 2 * r then q + 1
         else if even q then q else q + 1)"

text \<open>
  The binary64 number nearest to \<open>(a / b) * 2^e0\<close>, for \<open>a \<ge> 0\<close> and \<open>b > 0\<close>: with
  \<open>bitlen\<close> the number of binary digits, \<open>k\<close> is the exponent of the leading bit of
  \<open>a / b\<close>, and the quotient is rounded at 53 bits.
\<close>

definition dbl_round :: "int \<Rightarrow> int \<Rightarrow> int \<Rightarrow> dbl" where
  "dbl_round a b e0 =
     (if a \<le> 0 then (0, 0)
      else
        (let k0 = bitlen a - bitlen b;
             k = (if (if 0 \<le> k0 then b * 2 ^ nat k0 \<le> a else b \<le> a * 2 ^ nat (- k0))
                  then k0 else k0 - 1);
             sh = 52 - k;
             m = (if 0 \<le> sh then round_half_even_div (a * 2 ^ nat sh) b
                  else round_half_even_div a (b * 2 ^ nat (- sh)))
         in (m, e0 - sh)))"

text \<open>
  \<^verbatim>\<open>h / grid_size\<close> on non-negative integers, \<^verbatim>\<open>r * cell_h\<close>, and
  \<^verbatim>\<open>int(x)\<close>.
\<close>

definition py_true_div :: "int \<Rightarrow> int \<Rightarrow> dbl" where
  "py_true_div h g = dbl_round h g 0"

definition py_mul_int :: "int \<Rightarrow> dbl \<Rightarrow> dbl" where
  "py_mul_int r x = (case x of (m, e) \<Rightarrow> dbl_round (r * m) 1 e)"

definition py_int :: "dbl \<Rightarrow> int" where
  "py_int x = (case x of (m, e) \<Rightarrow> if 0 \<le> e then m * 2 ^ nat e else m div 2 ^ nat (- e))"

text \<open>
  \<open>cell_edge h g r\<close> is \<^verbatim>\<open>int(r * (h / grid_size))\<close>: row \<open>r\<close> of the grid covers the
  pixel rows from \<open>cell_edge h g r\<close> up to, not including, \<open>cell_edge h g (r + 1)\<close>, and
  the columns likewise with the width.
\<close>

definition cell_edge :: "int \<Rightarrow> int \<Rightarrow> int \<Rightarrow> int" where
  "cell_edge h g r = py_int (py_mul_int r (py_true_div h g))"

text \<open>\<^verbatim>\<open>a[y0:y1, x0:x1]\<close>.\<close>

definition slice2 :: "'a grid \<Rightarrow> nat \<Rightarrow> nat \<Rightarrow> nat \<Rightarrow> nat \<Rightarrow> 'a grid" where
  "slice2 a y0 y1 x0 x1 = map (\<lambda>row. py_slice row x0 x1) (py_slice a y0 y1)"

text \<open>
  \<^verbatim>\<open>compute_cell_ratios\<close>: the ROI is applied to the red mask first (ValueError on
  unequal shapes), then \<^verbatim>\<open>h / grid_size\<close> raises ZeroDivisionError for
  \<open>grid_size = 0\<close>.
\<close>

definition compute_cell_ratios ::
  "('p \<Rightarrow> int \<times> int \<times> int) \<Rightarrow> 'p grid \<Rightarrow> nat \<Rightarrow> bool grid option \<Rightarrow> int \<Rightarrow> int
     \<Rightarrow> py_error + real grid" where
  "compute_cell_ratios hsv_of frame_bgr grid_size roi_mask s_min v_min =
     (let h = int (fst (shape frame_bgr)); w = int (snd (shape frame_bgr)); g = int grid_size
      in bind_res (roi_apply roi_mask (make_red_mask hsv_of frame_bgr s_min v_min)) (\<lambda>red_mask.
           if grid_size = 0 then Inl ZeroDivisionError
           else Inr (map (\<lambda>r. map (\<lambda>c.
                  let y0 = nat (cell_edge h g (int r)); y1 = nat (cell_edge h g (int r + 1));
                      x0 = nat (cell_edge w g (int c)); x1 = nat (cell_edge w g (int c + 1));
                      cell_red = slice2 red_mask y0 y1 x0 x1;
                      total = (case roi_mask of
                                 Some roi \<Rightarrow> count_nonzero (slice2 roi y0 y1 x0 x1)
                               | None \<Rightarrow> (y1 - y0) * (x1 - x0))
                  in if 0 < total then real (count_nonzero cell_red) / real total else 0)
                [0..<grid_size]) [0..<grid_size])))"

section \<open>Properties\<close>

subsection \<open>The scan\<close>

lemma run_loop_append:
  "run_loop f (xs @ ys) s = (case run_loop f xs s of Inl e \<Rightarrow> Inl e | Inr s' \<Rightarrow> run_loop f ys s')"
  by (induction xs arbitrary: s) (auto split: sum.splits)


lemma scan_step_below_out:
  "s ! i \<le> thr \<Longrightarrow> scan_step ts s thr k_s sm ms i (False, st, evs) = Inr (False, st, evs)"
  by (simp add: scan_step_def)

lemma scan_step_above_out:
  "thr < s ! i \<Longrightarrow> scan_step ts s thr k_s sm ms i (False, st, evs) = Inr (True, i, evs)"
  by (simp add: scan_step_def)

lemma scan_step_above_in:
  "thr < s ! i \<Longrightarrow> scan_step ts s thr k_s sm ms i (True, st, evs) = Inr (True, st, evs)"
  by (simp add: scan_step_def)

lemma scan_step_close:
  "s ! i \<le> thr \<Longrightarrow> scan_step ts s thr k_s sm ms i (True, st, evs) =
     (if ms \<le> int i - int st then
        (case add_event evs ts s st i thr k_s sm of Inl e \<Rightarrow> Inl e | Inr evs' \<Rightarrow> Inr (False, st, evs'))
      else Inr (False, st, evs))"
  by (simp add: scan_step_def)

lemma scan_below:
  assumes "\<And>j. a \<le> j \<Longrightarrow> j < b \<Longrightarrow> s ! j \<le> thr"
  shows "run_loop (scan_step ts s thr k_s sm ms) [a..<b] (False, st, evs) = Inr (False, st, evs)"
  using assms
proof (induction b)
  case 0
  then show ?case by simp
next
  case (Suc b)
  show ?case
  proof (cases "a \<le> b")
    case True
    have "run_loop (scan_step ts s thr k_s sm ms) [a..<b] (False, st, evs) = Inr (False, st, evs)"
      using Suc by simp
    moreover have "s ! b \<le> thr" using Suc.prems True by simp
    ultimately show ?thesis using True
      by (simp add: run_loop_append scan_step_below_out)
  next
    case False
    then show ?thesis by simp
  qed
qed

lemma scan_above_in:
  assumes "\<And>j. a \<le> j \<Longrightarrow> j < b \<Longrightarrow> thr < s ! j"
  shows "run_loop (scan_step ts s thr k_s sm ms) [a..<b] (True, st, evs) = Inr (True, st, evs)"
  using assms
proof (induction b)
  case 0
  then show ?case by simp
next
  case (Suc b)
  show ?case
  proof (cases "a \<le> b")
    case True
    have "run_loop (scan_step ts s thr k_s sm ms) [a..<b] (True, st, evs) = Inr (True, st, evs)"
      using Suc by simp
    moreover have "thr < s ! b" using Suc.prems True by simp
    ultimately show ?thesis using True
      by (simp add: run_loop_append scan_step_above_in)
  next
    case False
    then show ?thesis by simp
  qed
qed

lemma scan_above_enter:
  assumes "a < b" and "\<And>j. a \<le> j \<Longrightarrow> j < b \<Longrightarrow> thr < s ! j"
  shows "run_loop (scan_step ts s thr k_s sm ms) [a..<b] (False, st, evs) = Inr (True, a, evs)"
proof -
  have "[a..<b] = a # [Suc a..<b]" using assms(1) by (simp add: upt_conv_Cons)
  moreover have "thr < s ! a" using assms by simp
  moreover have "run_loop (scan_step ts s thr k_s sm ms) [Suc a..<b] (True, a, evs) = Inr (True, a, evs)"
    by (rule scan_above_in) (use assms in simp)
  ultimately show ?thesis by (simp add: scan_step_above_out)
qed

text \<open>A series with exactly one run above the threshold.\<close>

lemma scan_single_run:
  fixes pre run post :: "real list"
  assumes s: "s = pre @ run @ post"
    and pre: "\<And>x. x \<in> set pre \<Longrightarrow> x \<le> thr"
    and run: "\<And>x. x \<in> set run \<Longrightarrow> thr < x"
    and post: "\<And>x. x \<in> set post \<Longrightarrow> x \<le> thr"
    and ne: "run \<noteq> []"
  shows "run_loop (scan_step ts s thr k_s sm ms) [0..<length s] (False, 0, []) =
     (if post = [] then Inr (True, length pre, [])
      else if ms \<le> int (length run) then
        (case add_event [] ts s (length pre) (length pre + length run) thr k_s sm of
           Inl e \<Rightarrow> Inl e | Inr evs' \<Rightarrow> Inr (False, length pre, evs'))
      else Inr (False, length pre, []))"
proof -
  let ?f = "scan_step ts s thr k_s sm ms"
  let ?p = "length pre" and ?r = "length run"
  have below_pre: "s ! j \<le> thr" if "j < ?p" for j
    using that pre s by (simp add: nth_append)
  have above_run: "thr < s ! j" if "?p \<le> j" "j < ?p + ?r" for j
  proof -
    have "s ! j = run ! (j - ?p)" using that s by (auto simp: nth_append)
    moreover have "run ! (j - ?p) \<in> set run" using that by simp
    ultimately show ?thesis using run by simp
  qed
  have below_post: "s ! j \<le> thr" if "?p + ?r \<le> j" "j < length s" for j
  proof -
    have "s ! j = post ! (j - ?p - ?r)" using that s by (auto simp: nth_append)
    moreover have "post ! (j - ?p - ?r) \<in> set post" using that s by simp
    ultimately show ?thesis using post by simp
  qed
  have A: "run_loop ?f [0..<?p] (False, 0, []) = Inr (False, 0, [])"
    by (rule scan_below) (use below_pre in simp)
  have B: "run_loop ?f [?p..<?p + ?r] (False, 0, []) = Inr (True, ?p, [])"
    by (rule scan_above_enter) (use ne above_run in auto)
  have AB: "run_loop ?f [0..<?p + ?r] (False, 0, []) = Inr (True, ?p, [])"
  proof -
    have "[0..<?p + ?r] = [0..<?p] @ [?p..<?p + ?r]"
      by (metis le_add1 upt_add_eq_append zero_le add_0)
    then show ?thesis using A B by (simp add: run_loop_append)
  qed
  show ?thesis
  proof (cases "post = []")
    case True
    then have "length s = ?p + ?r" using s by simp
    then show ?thesis using AB True by simp
  next
    case False
    let ?q = "?p + ?r"
    have len: "?q < length s" using False s by simp
    have split: "[0..<length s] = [0..<?q] @ ?q # [Suc ?q..<length s]"
      using len by (metis le_add1 less_imp_le_nat upt_add_eq_append upt_conv_Cons le_iff_add add_0 zero_le)
    have q_below: "s ! ?q \<le> thr" using below_post len by simp
    have rest: "run_loop ?f [Suc ?q..<length s] (False, st, evs) = Inr (False, st, evs)" for st evs
      by (rule scan_below) (use below_post in simp)
    have idx: "int ?q - int ?p = int ?r" by simp
    show ?thesis using False AB q_below rest
      by (simp add: split run_loop_append scan_step_close idx split: sum.splits)
  qed
qed

lemma min_samples_pos: "1 \<le> min_samples fmul k_s fps"
  by (simp add: min_samples_def)

lemma add_event_run:
  fixes pre run post :: "real list"
  assumes "s = pre @ run @ post" "run \<noteq> []" "length s \<le> length ts"
  shows "add_event evs ts s (length pre) (length pre + length run) thr k_s sm =
     Inr (evs @ [\<lparr>ev_type = ''bleed_candidate'', ev_metric = ''red_ratio'', ev_thr = thr,
                  ev_k_s = k_s, ev_smooth_s = sm,
                  ev_delta_max = py_round6 (Max (set run)),
                  ev_start = ts ! length pre, ev_end = ts ! (length pre + length run - 1)\<rparr>])"
proof -
  have sl: "py_slice s (length pre) (length pre + length run) = run"
    using assms(1) by (simp add: py_slice_def)
  have r: "0 < length run" using assms(2) by simp
  have n: "length s = length pre + length run + length post" using assms(1) by simp
  have a: "\<not> length ts \<le> length pre" using r n assms(3) by linarith
  have b: "\<not> length ts \<le> length pre + length run - 1" using r n assms(3) by linarith
  show ?thesis
    unfolding add_event_def Let_def sl using assms(2) a b by simp
qed

lemma extract_single_run:
  fixes pre run post :: "real list"
  assumes s: "s = pre @ run @ post"
    and pre: "\<And>x. x \<in> set pre \<Longrightarrow> x \<le> thr"
    and run: "\<And>x. x \<in> set run \<Longrightarrow> thr < x"
    and post: "\<And>x. x \<in> set post \<Longrightarrow> x \<le> thr"
    and ne: "run \<noteq> []"
    and len: "length s \<le> length ts"
  shows "extract_bleed_events fmul ts s thr k_s fps sm =
     (if min_samples fmul k_s fps \<le> int (length run) then
        Inr [\<lparr>ev_type = ''bleed_candidate'', ev_metric = ''red_ratio'', ev_thr = thr,
              ev_k_s = k_s, ev_smooth_s = sm,
              ev_delta_max = py_round6 (Max (set run)),
              ev_start = ts ! length pre, ev_end = ts ! (length pre + length run - 1)\<rparr>]
      else Inr [])"
proof -
  let ?ms = "min_samples fmul k_s fps"
  let ?E = "[\<lparr>ev_type = ''bleed_candidate'', ev_metric = ''red_ratio'', ev_thr = thr,
              ev_k_s = k_s, ev_smooth_s = sm,
              ev_delta_max = py_round6 (Max (set run)),
              ev_start = ts ! length pre, ev_end = ts ! (length pre + length run - 1)\<rparr>]"
  have n: "length s \<noteq> 0" using s ne by simp
  have ev: "add_event [] ts s (length pre) (length pre + length run) thr k_s sm = Inr ?E"
    using add_event_run[OF s ne len, of "[]" thr k_s sm] by simp
  have scan: "run_loop (scan_step ts s thr k_s sm ?ms) [0..<length s] (False, 0, []) =
     (if post = [] then Inr (True, length pre, [])
      else if ?ms \<le> int (length run) then Inr (False, length pre, ?E)
      else Inr (False, length pre, []))"
  proof -
    have "run_loop (scan_step ts s thr k_s sm ?ms) [0..<length s] (False, 0, []) =
     (if post = [] then Inr (True, length pre, [])
      else if ?ms \<le> int (length run) then
        (case add_event [] ts s (length pre) (length pre + length run) thr k_s sm of
           Inl e \<Rightarrow> Inl e | Inr evs' \<Rightarrow> Inr (False, length pre, evs'))
      else Inr (False, length pre, []))"
      by (rule scan_single_run[OF s pre run post ne])
    then show ?thesis by (simp only: ev sum.case)
  qed
  show ?thesis
  proof (cases "post = []")
    case True
    then have l: "length s = length pre + length run" using s by simp
    have d: "int (length s) - int (length pre) = int (length run)" using l by simp
    have ev': "add_event [] ts s (length pre) (length s) thr k_s sm = Inr ?E"
      using ev l by simp
    show ?thesis
      unfolding extract_bleed_events_def Let_def scan using n True d ev' by simp
  next
    case False
    show ?thesis
      unfolding extract_bleed_events_def Let_def scan using n False by simp
  qed
qed

subsection \<open>Minimum duration: the boundary\<close>

text \<open>
  Claim C3. Let the series consist of samples not above \<open>thr\<close>, then one run of samples
  strictly above \<open>thr\<close>, then samples not above \<open>thr\<close>, and let
  \<open>min_samples = max(1, round(k_s * fps))\<close>. A run of length \<open>min_samples - 1\<close>
  (for \<open>min_samples \<ge> 2\<close>) yields no event; a run of length \<open>min_samples\<close> yields
  exactly one event.
\<close>

theorem extract_run_length_boundary:
  fixes pre run post :: "real list"
  assumes "s = pre @ run @ post"
    and "\<forall>x \<in> set pre. x \<le> thr"
    and "\<forall>x \<in> set run. thr < x"
    and "\<forall>x \<in> set post. x \<le> thr"
    and "length ts = length s"
  shows "(2 \<le> min_samples fmul k_s fps \<and> int (length run) = min_samples fmul k_s fps - 1
            \<longrightarrow> extract_bleed_events fmul ts s thr k_s fps sm = Inr [])
       \<and> (int (length run) = min_samples fmul k_s fps
            \<longrightarrow> (\<exists>e. extract_bleed_events fmul ts s thr k_s fps sm = Inr [e]))"
proof (intro conjI impI)
  assume a: "2 \<le> min_samples fmul k_s fps \<and> int (length run) = min_samples fmul k_s fps - 1"
  then have ne: "run \<noteq> []" by auto
  have "extract_bleed_events fmul ts s thr k_s fps sm =
     (if min_samples fmul k_s fps \<le> int (length run) then
        Inr [\<lparr>ev_type = ''bleed_candidate'', ev_metric = ''red_ratio'', ev_thr = thr,
              ev_k_s = k_s, ev_smooth_s = sm,
              ev_delta_max = py_round6 (Max (set run)),
              ev_start = ts ! length pre, ev_end = ts ! (length pre + length run - 1)\<rparr>]
      else Inr [])"
    by (rule extract_single_run[OF assms(1) _ _ _ ne]) (use assms in auto)
  moreover have "\<not> min_samples fmul k_s fps \<le> int (length run)" using a by linarith
  ultimately show "extract_bleed_events fmul ts s thr k_s fps sm = Inr []"
    by (simp only: if_False)
next
  assume b: "int (length run) = min_samples fmul k_s fps"
  then have ne: "run \<noteq> []" using min_samples_pos[of fmul k_s fps] by auto
  have "extract_bleed_events fmul ts s thr k_s fps sm =
     (if min_samples fmul k_s fps \<le> int (length run) then
        Inr [\<lparr>ev_type = ''bleed_candidate'', ev_metric = ''red_ratio'', ev_thr = thr,
              ev_k_s = k_s, ev_smooth_s = sm,
              ev_delta_max = py_round6 (Max (set run)),
              ev_start = ts ! length pre, ev_end = ts ! (length pre + length run - 1)\<rparr>]
      else Inr [])"
    by (rule extract_single_run[OF assms(1) _ _ _ ne]) (use assms in auto)
  moreover have "min_samples fmul k_s fps \<le> int (length run)" using b by linarith
  ultimately show "\<exists>e. extract_bleed_events fmul ts s thr k_s fps sm = Inr [e]"
    by (simp only: if_True) blast
qed

lemma min_samples_2_1: "min_samples (*) 2 1 = 2"
  by (simp add: min_samples_def py_round_def)

lemma min_samples_3_1: "min_samples (*) 3 1 = 3"
  by (simp add: min_samples_def py_round_def)

theorem extract_run_length_boundary_witness:
  "(\<exists>e. extract_bleed_events (*) [0, 1, 2, 3] [0, 1, 1, 0] (1 / 2) 2 1 0 = Inr [e])
   \<and> extract_bleed_events (*) [0, 1, 2, 3] [0, 1, 1, 0] (1 / 2) 3 1 0 = Inr []"
proof
  show "\<exists>e. extract_bleed_events (*) [0, 1, 2, 3] [0, 1, 1, 0] (1 / 2) 2 1 0 = Inr [e]"
    using extract_run_length_boundary[of "[0, 1, 1, 0]" "[0]" "[1, 1]" "[0]" "1 / 2"
        "[0, 1, 2, 3]" "(*)" 2 1 0]
    by (simp add: min_samples_2_1)
  show "extract_bleed_events (*) [0, 1, 2, 3] [0, 1, 1, 0] (1 / 2) 3 1 0 = Inr []"
    using extract_run_length_boundary[of "[0, 1, 1, 0]" "[0]" "[1, 1]" "[0]" "1 / 2"
        "[0, 1, 2, 3]" "(*)" 3 1 0]
    by (simp add: min_samples_3_1)
qed

subsection \<open>The 50-sample scenario\<close>

lemma upt_50_split: "[0..<50] = [0..<10] @ [10..<30] @ [30..<(50::nat)]"
proof -
  have "[0..<(10::nat) + 20] = [0..<10] @ [10..<10 + 20]" by (rule upt_add_eq_append) simp
  moreover have "[0..<(30::nat) + 20] = [0..<30] @ [30..<30 + 20]" by (rule upt_add_eq_append) simp
  ultimately show ?thesis by simp
qed

lemma py_round6_twentieth: "py_round6 (1 / 20) = 1 / 20"
  by (simp add: py_round6_def py_round_def)

lemma min_samples_3_5: "min_samples (*) 3 5 = 15"
  by (simp add: min_samples_def py_round_def)

text \<open>
  Claim C1. For the 50 samples with timestamps \<open>t[i] = 0.2 * i\<close> and values \<open>0.01\<close>
  except \<open>0.05\<close> at the indices 10 to 29, with \<open>thr = 0.03\<close>, \<open>k_s = 3.0\<close> and
  \<open>fps = 5\<close>, the extractor returns exactly one event, with start \<open>2.0\<close>, end
  \<open>5.8\<close> and peak \<open>0.05\<close>. The product \<open>3.0 * 5\<close> is 15 exactly, also in binary64,
  so the multiplication is the exact one here.
\<close>

theorem extract_scenario_single_event:
  "extract_bleed_events (*)
     (map (\<lambda>i. 2 / 10 * real i) [0..<50])
     (map (\<lambda>i. if 10 \<le> i \<and> i < 30 then 5 / 100 else 1 / 100) [0..<50])
     (3 / 100) 3 5 smooth_s
   = Inr [\<lparr>ev_type = ''bleed_candidate'', ev_metric = ''red_ratio'', ev_thr = 3 / 100,
           ev_k_s = 3, ev_smooth_s = smooth_s, ev_delta_max = 5 / 100,
           ev_start = 2, ev_end = 58 / 10\<rparr>]"
proof -
  let ?f = "\<lambda>i::nat. if 10 \<le> i \<and> i < 30 then 5 / 100 else (1 / 100 :: real)"
  let ?ts = "map (\<lambda>i. 2 / 10 * real i) [0..<50]"
  let ?pre = "map ?f [0..<10]" and ?run = "map ?f [10..<30]" and ?post = "map ?f [30..<50]"
  have s: "map ?f [0..<50] = ?pre @ ?run @ ?post"
    unfolding upt_50_split by simp
  have mx: "Max (set ?run) = 5 / 100" by simp
  have ne: "?run \<noteq> []" by simp
  have "extract_bleed_events (*) ?ts (map ?f [0..<50]) (3 / 100) 3 5 smooth_s =
     (if min_samples (*) 3 5 \<le> int (length ?run) then
        Inr [\<lparr>ev_type = ''bleed_candidate'', ev_metric = ''red_ratio'', ev_thr = 3 / 100,
              ev_k_s = 3, ev_smooth_s = smooth_s,
              ev_delta_max = py_round6 (Max (set ?run)),
              ev_start = ?ts ! length ?pre, ev_end = ?ts ! (length ?pre + length ?run - 1)\<rparr>]
      else Inr [])"
    by (rule extract_single_run[OF s _ _ _ ne]) auto
  moreover have "length ?pre = 10" "length ?run = 20" by simp_all
  moreover have "?ts ! 10 = 2" "?ts ! 29 = 58 / 10" by simp_all
  ultimately show ?thesis
    by (simp add: mx py_round6_twentieth min_samples_3_5)
qed

subsection \<open>A sample equal to the threshold\<close>

text \<open>
  Claim C4. A sample equal to \<open>thr\<close> counts as outside: from the state OUTSIDE the
  iteration leaves the state unchanged (no entry), and from the state INSIDE it closes the
  run at that index \<open>i\<close> (emitting the event for \<open>[start_idx, i)\<close> when the run is long
  enough); whatever the state before, the scan is OUTSIDE after such a sample, in
  particular after the loop has run from the start of the series through index \<open>i\<close>.
\<close>

theorem threshold_sample_is_outside:
  assumes "smooth_deltas ! i = thr"
  shows "scan_step ts smooth_deltas thr k_s smooth_s ms i (False, start_idx, events)
           = Inr (False, start_idx, events)
       \<and> scan_step ts smooth_deltas thr k_s smooth_s ms i (True, start_idx, events)
           = (if ms \<le> int i - int start_idx then
                (case add_event events ts smooth_deltas start_idx i thr k_s smooth_s of
                   Inl e \<Rightarrow> Inl e
                 | Inr events' \<Rightarrow> Inr (False, start_idx, events'))
              else Inr (False, start_idx, events))
       \<and> (\<forall>st st'. scan_step ts smooth_deltas thr k_s smooth_s ms i st = Inr st' \<longrightarrow> \<not> fst st')
       \<and> (\<forall>st'. run_loop (scan_step ts smooth_deltas thr k_s smooth_s ms) [0..<Suc i] (False, 0, [])
                    = Inr st' \<longrightarrow> \<not> fst st')"
proof -
  have step: "\<not> fst st'" if "scan_step ts smooth_deltas thr k_s smooth_s ms i st = Inr st'" for st st'
    using that assms by (cases st) (auto simp: scan_step_def split: if_splits sum.splits)
  have loop: "\<not> fst st'"
    if "run_loop (scan_step ts smooth_deltas thr k_s smooth_s ms) [0..<Suc i] (False, 0, []) = Inr st'"
    for st'
  proof (cases "run_loop (scan_step ts smooth_deltas thr k_s smooth_s ms) [0..<i] (False, 0, [])")
    case (Inl e)
    then show ?thesis using that by (simp add: run_loop_append)
  next
    case (Inr st)
    then have "scan_step ts smooth_deltas thr k_s smooth_s ms i st = Inr st'"
      using that by (simp add: run_loop_append split: sum.splits)
    then show ?thesis by (rule step)
  qed
  show ?thesis
    using assms step loop by (simp add: scan_step_def)
qed

lemma py_round6_one: "py_round6 1 = 1"
  by (simp add: py_round6_def py_round_def)

theorem threshold_sample_is_outside_witness:
  "[1, 1 / 2] ! 1 = (1 / 2 :: real)
   \<and> scan_step [0, 1] [1, 1 / 2] (1 / 2) 1 0 1 1 (False, 0, []) = Inr (False, 0, [])
   \<and> scan_step [0, 1] [1, 1 / 2] (1 / 2) 1 0 1 1 (True, 0, [])
       = Inr (False, 0, [\<lparr>ev_type = ''bleed_candidate'', ev_metric = ''red_ratio'',
                           ev_thr = 1 / 2, ev_k_s = 1, ev_smooth_s = 0, ev_delta_max = 1,
                           ev_start = 0, ev_end = 0\<rparr>])"
  using threshold_sample_is_outside[of "[1, 1 / 2]" 1 "1 / 2" "[0, 1]" 1 0 1 0 "[]"]
  by (simp add: add_event_def py_slice_def py_round6_one)

subsection \<open>The invariant of the scan\<close>

lemma add_event_ok:
  assumes "start_idx < end_idx" "end_idx \<le> length s" "length s \<le> length ts"
  shows "add_event evs ts s start_idx end_idx thr k_s sm
           = Inr (evs @ [event_of ts s thr k_s sm (start_idx, end_idx)])"
proof -
  have "length (py_slice s start_idx end_idx) = end_idx - start_idx"
    using assms by (simp add: py_slice_def)
  then have ne: "py_slice s start_idx end_idx \<noteq> []" using assms(1) by auto
  have a: "\<not> length ts \<le> start_idx" "\<not> length ts \<le> end_idx - 1"
    using assms by linarith+
  show ?thesis
    unfolding add_event_def Let_def event_of_def using ne a by simp
qed

lemma scan_step_inv:
  assumes inv: "scan_inv ts s thr k_s sm i st"
    and i: "i < length s" and len: "length s \<le> length ts"
  shows "\<exists>st'. scan_step ts s thr k_s sm ms i st = Inr st' \<and> scan_inv ts s thr k_s sm (Suc i) st'"
proof -
  obtain b start_idx evs where st: "st = (b, start_idx, evs)" by (cases st) auto
  from inv st obtain runs where
    evs: "evs = map (event_of ts s thr k_s sm) runs"
    and srt: "sorted_wrt (\<lambda>r r'. snd r \<le> fst r') runs"
    and rs: "\<forall>r \<in> set runs. fst r < snd r \<and> snd r \<le> (if b then start_idx else i)
                \<and> (\<forall>j. fst r \<le> j \<and> j < snd r \<longrightarrow> thr < s ! j)"
    and cur: "b \<longrightarrow> start_idx < i \<and> (\<forall>j. start_idx \<le> j \<and> j < i \<longrightarrow> thr < s ! j)"
    unfolding scan_inv_def by auto
  consider (enter) "thr < s ! i" "\<not> b" | (stay_in) "thr < s ! i" "b"
    | (stay_out) "\<not> thr < s ! i" "\<not> b" | (close) "\<not> thr < s ! i" "b"
    by blast
  then show ?thesis
  proof cases
    case enter
    have "scan_step ts s thr k_s sm ms i st = Inr (True, i, evs)"
      using enter st by (simp add: scan_step_def)
    moreover have "scan_inv ts s thr k_s sm (Suc i) (True, i, evs)"
      unfolding scan_inv_def using evs srt rs enter
      by (auto intro!: exI[of _ runs] simp: less_Suc_eq)
    ultimately show ?thesis by blast
  next
    case stay_in
    have "scan_step ts s thr k_s sm ms i st = Inr (True, start_idx, evs)"
      using stay_in st by (simp add: scan_step_def)
    moreover have "scan_inv ts s thr k_s sm (Suc i) (True, start_idx, evs)"
      unfolding scan_inv_def using evs srt rs cur stay_in
      by (auto intro!: exI[of _ runs] simp: less_Suc_eq)
    ultimately show ?thesis by blast
  next
    case stay_out
    have "scan_step ts s thr k_s sm ms i st = Inr (False, start_idx, evs)"
      using stay_out st by (simp add: scan_step_def)
    moreover have "scan_inv ts s thr k_s sm (Suc i) (False, start_idx, evs)"
      unfolding scan_inv_def using evs srt rs stay_out
      by (auto intro!: exI[of _ runs] simp: less_Suc_eq)
    ultimately show ?thesis by blast
  next
    case close
    show ?thesis
    proof (cases "ms \<le> int i - int start_idx")
      case True
      have lt: "start_idx < i" using cur close by simp
      have ae: "add_event evs ts s start_idx i thr k_s sm
                  = Inr (evs @ [event_of ts s thr k_s sm (start_idx, i)])"
        by (rule add_event_ok) (use lt i len in auto)
      have "scan_step ts s thr k_s sm ms i st
              = Inr (False, start_idx, evs @ [event_of ts s thr k_s sm (start_idx, i)])"
        using close st True ae by (simp add: scan_step_def)
      moreover have "scan_inv ts s thr k_s sm (Suc i)
                       (False, start_idx, evs @ [event_of ts s thr k_s sm (start_idx, i)])"
      proof -
        let ?runs = "runs @ [(start_idx, i)]"
        have 1: "evs @ [event_of ts s thr k_s sm (start_idx, i)] = map (event_of ts s thr k_s sm) ?runs"
          using evs by simp
        have 2: "sorted_wrt (\<lambda>r r'. snd r \<le> fst r') ?runs"
          using srt rs close by (auto simp: sorted_wrt_append)
        have 3: "\<forall>r \<in> set ?runs. fst r < snd r \<and> snd r \<le> Suc i
                   \<and> (\<forall>j. fst r \<le> j \<and> j < snd r \<longrightarrow> thr < s ! j)"
          using rs cur close lt by (auto simp: less_Suc_eq)
        show ?thesis
          unfolding scan_inv_def using 1 2 3 by (auto intro!: exI[of _ ?runs])
      qed
      ultimately show ?thesis by blast
    next
      case False
      have "scan_step ts s thr k_s sm ms i st = Inr (False, start_idx, evs)"
        using close st False by (simp add: scan_step_def)
      moreover have "scan_inv ts s thr k_s sm (Suc i) (False, start_idx, evs)"
        unfolding scan_inv_def using evs srt rs cur close
        by (auto intro!: exI[of _ runs] simp: less_Suc_eq)
      ultimately show ?thesis by blast
    qed
  qed
qed

lemma run_loop_inv:
  assumes "n \<le> length s" "length s \<le> length ts"
  shows "\<exists>st. run_loop (scan_step ts s thr k_s sm ms) [0..<n] (False, 0, []) = Inr st
            \<and> scan_inv ts s thr k_s sm n st"
  using assms(1)
proof (induction n)
  case 0
  show ?case by (simp add: scan_inv_def)
next
  case (Suc n)
  then obtain st where st: "run_loop (scan_step ts s thr k_s sm ms) [0..<n] (False, 0, []) = Inr st"
    and inv: "scan_inv ts s thr k_s sm n st" by auto
  obtain st' where "scan_step ts s thr k_s sm ms n st = Inr st'" "scan_inv ts s thr k_s sm (Suc n) st'"
    using scan_step_inv[OF inv _ assms(2), of ms] Suc.prems by auto
  then show ?case using st by (simp add: run_loop_append)
qed

subsection \<open>Invariants of the emitted events\<close>

lemma set_py_slice:
  assumes "a \<le> e" "e \<le> length s"
  shows "set (py_slice s a e) = {s ! j | j. a \<le> j \<and> j < e}"
proof -
  have k: "e - a \<le> length (drop a s)" using assms by simp
  have "set (py_slice s a e) = (!) (drop a s) ` {0..<e - a}"
    unfolding py_slice_def using nth_image[OF k] by simp
  also have "\<dots> = {s ! j | j. a \<le> j \<and> j < e}"
  proof (intro set_eqI iffI)
    fix x assume "x \<in> (!) (drop a s) ` {0..<e - a}"
    then obtain j where j: "j < e - a" "x = drop a s ! j" by auto
    then have "x = s ! (a + j)" using assms by simp
    moreover have "a \<le> a + j" "a + j < e" using j by auto
    ultimately show "x \<in> {s ! j | j. a \<le> j \<and> j < e}" by blast
  next
    fix x assume "x \<in> {s ! j | j. a \<le> j \<and> j < e}"
    then obtain j where j: "a \<le> j" "j < e" "x = s ! j" by auto
    then have "x = drop a s ! (j - a)" using assms by simp
    moreover have "j - a < e - a" using j by auto
    ultimately show "x \<in> (!) (drop a s) ` {0..<e - a}" by auto
  qed
  finally show ?thesis .
qed

lemma extract_runs:
  assumes len: "length s \<le> length ts"
  shows "\<exists>runs. extract_bleed_events fmul ts s thr k_s fps sm
                  = Inr (map (event_of ts s thr k_s sm) runs)
           \<and> sorted_wrt (\<lambda>r r'. snd r \<le> fst r') runs
           \<and> (\<forall>r \<in> set runs. fst r < snd r \<and> snd r \<le> length s
                  \<and> (\<forall>j. fst r \<le> j \<and> j < snd r \<longrightarrow> thr < s ! j))"
proof (cases "length s = 0")
  case True
  then have "extract_bleed_events fmul ts s thr k_s fps sm = Inr (map (event_of ts s thr k_s sm) [])"
    by (simp add: extract_bleed_events_def)
  then show ?thesis by (intro exI[of _ "[]"]) simp
next
  case False
  let ?n = "length s" and ?ms = "min_samples fmul k_s fps"
  obtain st where run: "run_loop (scan_step ts s thr k_s sm ?ms) [0..<?n] (False, 0, []) = Inr st"
    and inv: "scan_inv ts s thr k_s sm ?n st"
    using run_loop_inv[OF le_refl len, of thr k_s sm ?ms] by auto
  obtain b start_idx evs where st: "st = (b, start_idx, evs)" by (cases st) auto
  from inv st obtain runs where
    evs: "evs = map (event_of ts s thr k_s sm) runs"
    and srt: "sorted_wrt (\<lambda>r r'. snd r \<le> fst r') runs"
    and rs: "\<forall>r \<in> set runs. fst r < snd r \<and> snd r \<le> (if b then start_idx else ?n)
                \<and> (\<forall>j. fst r \<le> j \<and> j < snd r \<longrightarrow> thr < s ! j)"
    and cur: "b \<longrightarrow> start_idx < ?n \<and> (\<forall>j. start_idx \<le> j \<and> j < ?n \<longrightarrow> thr < s ! j)"
    unfolding scan_inv_def by auto
  have res: "extract_bleed_events fmul ts s thr k_s fps sm =
      (if b then
         (if ?ms \<le> int ?n - int start_idx then add_event evs ts s start_idx ?n thr k_s sm
          else Inr evs)
       else Inr evs)"
    using False run st by (simp add: extract_bleed_events_def Let_def)
  show ?thesis
  proof (cases "b \<and> ?ms \<le> int ?n - int start_idx")
    case True
    then have lt: "start_idx < ?n" using cur by simp
    have ae: "add_event evs ts s start_idx ?n thr k_s sm
                = Inr (evs @ [event_of ts s thr k_s sm (start_idx, ?n)])"
      by (rule add_event_ok) (use lt len in auto)
    let ?runs = "runs @ [(start_idx, ?n)]"
    have 1: "extract_bleed_events fmul ts s thr k_s fps sm = Inr (map (event_of ts s thr k_s sm) ?runs)"
      using res True ae evs by simp
    have 2: "sorted_wrt (\<lambda>r r'. snd r \<le> fst r') ?runs"
      using srt rs True by (auto simp: sorted_wrt_append)
    have 3: "\<forall>r \<in> set ?runs. fst r < snd r \<and> snd r \<le> ?n
               \<and> (\<forall>j. fst r \<le> j \<and> j < snd r \<longrightarrow> thr < s ! j)"
      using rs cur True lt by auto
    show ?thesis using 1 2 3 by (intro exI[of _ ?runs]) simp
  next
    case False
    then have 1: "extract_bleed_events fmul ts s thr k_s fps sm = Inr (map (event_of ts s thr k_s sm) runs)"
      using res evs by auto
    have 3: "\<forall>r \<in> set runs. fst r < snd r \<and> snd r \<le> ?n
               \<and> (\<forall>j. fst r \<le> j \<and> j < snd r \<longrightarrow> thr < s ! j)"
    proof
      fix r assume r: "r \<in> set runs"
      then have "snd r \<le> (if b then start_idx else ?n)" using rs by blast
      moreover have "b \<longrightarrow> start_idx < ?n" using cur by blast
      ultimately have "snd r \<le> ?n" by (auto split: if_splits)
      then show "fst r < snd r \<and> snd r \<le> ?n \<and> (\<forall>j. fst r \<le> j \<and> j < snd r \<longrightarrow> thr < s ! j)"
        using rs r by blast
    qed
    show ?thesis using 1 srt 3 by (intro exI[of _ runs]) simp
  qed
qed

text \<open>
  Claim C10. For non-decreasing timestamps (one per sample), the extractor returns, without
  error, the events of a list of index ranges \<open>[a, e)\<close> such that: the ranges appear in
  increasing order of start index and are pairwise disjoint (an earlier range ends at or
  before the start of a later one); every sample of a range is strictly above \<open>thr\<close>; the
  event's \<open>delta_max\<close> is the maximum of the series over the range, rounded to six
  decimals; its start and end are the timestamps of the first and last sample of the range,
  and start \<open>\<le>\<close> end.
\<close>

theorem extract_events_invariants:
  assumes "sorted ts" and "length ts = length s"
  shows "\<exists>evs runs. extract_bleed_events fmul ts s thr k_s fps sm = Inr evs
           \<and> length runs = length evs
           \<and> (\<forall>k l. k < l \<and> l < length runs \<longrightarrow>
                  fst (runs ! k) < fst (runs ! l) \<and> snd (runs ! k) \<le> fst (runs ! l))
           \<and> (\<forall>k < length runs.
                  fst (runs ! k) < snd (runs ! k) \<and> snd (runs ! k) \<le> length s
                \<and> (\<forall>j. fst (runs ! k) \<le> j \<and> j < snd (runs ! k) \<longrightarrow> thr < s ! j)
                \<and> ev_delta_max (evs ! k)
                    = py_round6 (Max {s ! j | j. fst (runs ! k) \<le> j \<and> j < snd (runs ! k)})
                \<and> ev_start (evs ! k) = ts ! fst (runs ! k)
                \<and> ev_end (evs ! k) = ts ! (snd (runs ! k) - 1)
                \<and> ev_start (evs ! k) \<le> ev_end (evs ! k))"
proof -
  obtain runs where
    res: "extract_bleed_events fmul ts s thr k_s fps sm = Inr (map (event_of ts s thr k_s sm) runs)"
    and srt: "sorted_wrt (\<lambda>r r'. snd r \<le> fst r') runs"
    and rs: "\<forall>r \<in> set runs. fst r < snd r \<and> snd r \<le> length s
                \<and> (\<forall>j. fst r \<le> j \<and> j < snd r \<longrightarrow> thr < s ! j)"
    using extract_runs[of s ts fmul thr k_s fps sm] assms(2) by auto
  let ?evs = "map (event_of ts s thr k_s sm) runs"
  have order: "fst (runs ! k) < fst (runs ! l) \<and> snd (runs ! k) \<le> fst (runs ! l)"
    if "k < l" "l < length runs" for k l
  proof -
    have "snd (runs ! k) \<le> fst (runs ! l)"
      using sorted_wrt_nth_less[OF srt that] .
    moreover have "runs ! k \<in> set runs" using that by simp
    then have "fst (runs ! k) < snd (runs ! k)" using rs by blast
    ultimately show ?thesis by simp
  qed
  have each: "fst (runs ! k) < snd (runs ! k) \<and> snd (runs ! k) \<le> length s
                \<and> (\<forall>j. fst (runs ! k) \<le> j \<and> j < snd (runs ! k) \<longrightarrow> thr < s ! j)
                \<and> ev_delta_max (?evs ! k)
                    = py_round6 (Max {s ! j | j. fst (runs ! k) \<le> j \<and> j < snd (runs ! k)})
                \<and> ev_start (?evs ! k) = ts ! fst (runs ! k)
                \<and> ev_end (?evs ! k) = ts ! (snd (runs ! k) - 1)
                \<and> ev_start (?evs ! k) \<le> ev_end (?evs ! k)"
    if k: "k < length runs" for k
  proof -
    let ?a = "fst (runs ! k)" and ?e = "snd (runs ! k)"
    have mem: "runs ! k \<in> set runs" using k by simp
    have r: "?a < ?e" "?e \<le> length s" "\<forall>j. ?a \<le> j \<and> j < ?e \<longrightarrow> thr < s ! j"
      using rs mem by blast+
    have ev: "?evs ! k = event_of ts s thr k_s sm (runs ! k)" using k by simp
    have sl: "set (py_slice s ?a ?e) = {s ! j | j. ?a \<le> j \<and> j < ?e}"
      by (rule set_py_slice) (use r in auto)
    have "ts ! ?a \<le> ts ! (?e - 1)"
      by (rule sorted_nth_mono[OF assms(1)]) (use r assms(2) in auto)
    then show ?thesis using r ev sl by (simp add: event_of_def)
  qed
  show ?thesis
  proof (intro exI[of _ ?evs] exI[of _ runs] conjI)
    show "extract_bleed_events fmul ts s thr k_s fps sm = Inr ?evs" by (rule res)
    show "length runs = length ?evs" by simp
    show "\<forall>k l. k < l \<and> l < length runs \<longrightarrow>
            fst (runs ! k) < fst (runs ! l) \<and> snd (runs ! k) \<le> fst (runs ! l)"
      using order by blast
    show "\<forall>k < length runs.
            fst (runs ! k) < snd (runs ! k) \<and> snd (runs ! k) \<le> length s
          \<and> (\<forall>j. fst (runs ! k) \<le> j \<and> j < snd (runs ! k) \<longrightarrow> thr < s ! j)
          \<and> ev_delta_max (?evs ! k)
              = py_round6 (Max {s ! j | j. fst (runs ! k) \<le> j \<and> j < snd (runs ! k)})
          \<and> ev_start (?evs ! k) = ts ! fst (runs ! k)
          \<and> ev_end (?evs ! k) = ts ! (snd (runs ! k) - 1)
          \<and> ev_start (?evs ! k) \<le> ev_end (?evs ! k)"
      using each by blast
  qed
qed

theorem extract_events_invariants_witness:
  "sorted [0, 1, 2, 3 :: real] \<and> length [0, 1, 2, 3 :: real] = length [0, 1, 1, 0 :: real]
   \<and> (\<exists>evs runs. extract_bleed_events (*) [0, 1, 2, 3] [0, 1, 1, 0] (1 / 2) 2 1 0 = Inr evs
           \<and> length runs = length evs
           \<and> (\<forall>k l. k < l \<and> l < length runs \<longrightarrow>
                  fst (runs ! k) < fst (runs ! l) \<and> snd (runs ! k) \<le> fst (runs ! l))
           \<and> (\<forall>k < length runs.
                  fst (runs ! k) < snd (runs ! k) \<and> snd (runs ! k) \<le> length [0, 1, 1, 0 :: real]
                \<and> (\<forall>j. fst (runs ! k) \<le> j \<and> j < snd (runs ! k) \<longrightarrow> 1 / 2 < [0, 1, 1, 0 :: real] ! j)
                \<and> ev_delta_max (evs ! k)
                    = py_round6 (Max {[0, 1, 1, 0 :: real] ! j | j. fst (runs ! k) \<le> j \<and> j < snd (runs ! k)})
                \<and> ev_start (evs ! k) = [0, 1, 2, 3] ! fst (runs ! k)
                \<and> ev_end (evs ! k) = [0, 1, 2, 3] ! (snd (runs ! k) - 1)
                \<and> ev_start (evs ! k) \<le> ev_end (evs ! k)))"
proof -
  have h1: "sorted [0, 1, 2, 3 :: real]" by simp
  have h2: "length [0, 1, 2, 3 :: real] = length [0, 1, 1, 0 :: real]" by simp
  show ?thesis
    by (intro conjI h1 h2 extract_events_invariants[OF h1 h2])
qed

subsection \<open>The centred moving average\<close>

lemma sum_list_py_slice:
  fixes xs :: "real list"
  assumes "lo \<le> hi" "hi \<le> length xs"
  shows "sum_list (py_slice xs lo hi) = (\<Sum>k = lo..<hi. xs ! k)"
proof -
  have len: "length (py_slice xs lo hi) = hi - lo" using assms by (simp add: py_slice_def)
  have "sum_list (py_slice xs lo hi) = (\<Sum>j = 0..<hi - lo. py_slice xs lo hi ! j)"
    using sum_list_sum_nth[of "py_slice xs lo hi"] len by simp
  also have "\<dots> = (\<Sum>j = 0..<hi - lo. xs ! (j + lo))"
    by (rule sum.cong) (use assms in \<open>auto simp: py_slice_def add.commute\<close>)
  also have "\<dots> = (\<Sum>k = 0 + lo..<(hi - lo) + lo. xs ! k)"
    by (rule sum.shift_bounds_nat_ivl[symmetric])
  also have "\<dots> = (\<Sum>k = lo..<hi. xs ! k)" using assms by simp
  finally show ?thesis .
qed

text \<open>
  Claim C6. For a window \<open>W \<ge> 1\<close> the result has the length of the input, its element at
  \<open>i\<close> is the mean of the input over \<open>[max(0, i - W div 2), min(n, i + W div 2 + 1))\<close>, and
  \<open>W = 1\<close> returns the input unchanged.
\<close>

theorem smooth_center_mean:
  assumes "1 \<le> window"
  shows "length (smooth_center values window) = length values
       \<and> (\<forall>i < length values.
             smooth_center values window ! i
               = (\<Sum>k = nat (max 0 (int i - window div 2))
                        ..<nat (min (int (length values)) (int i + window div 2 + 1)). values ! k)
                 / of_int (min (int (length values)) (int i + window div 2 + 1)
                           - max 0 (int i - window div 2)))
       \<and> (window = 1 \<longrightarrow> smooth_center values window = values)"
proof (cases "window = 1")
  case True
  have eq: "smooth_center values window = values"
    using True by (simp add: smooth_center_def)
  have "(\<Sum>k = nat (max 0 (int i - window div 2))
                ..<nat (min (int (length values)) (int i + window div 2 + 1)). values ! k)
          / of_int (min (int (length values)) (int i + window div 2 + 1)
                    - max 0 (int i - window div 2)) = values ! i"
    if "i < length values" for i
  proof -
    have "nat (max 0 (int i - window div 2)) = i" using True by simp
    moreover have "nat (min (int (length values)) (int i + window div 2 + 1)) = Suc i"
      using True that by simp
    moreover have "min (int (length values)) (int i + window div 2 + 1)
                    - max 0 (int i - window div 2) = 1"
      using True that by simp
    ultimately show ?thesis by simp
  qed
  then show ?thesis using eq True by simp
next
  case False
  then have w: "1 < window" using assms by simp
  then have half: "0 \<le> window div 2" by simp
  have len: "length (smooth_center values window) = length values"
    by (simp add: smooth_center_def Let_def)
  have "smooth_center values window ! i
               = (\<Sum>k = nat (max 0 (int i - window div 2))
                        ..<nat (min (int (length values)) (int i + window div 2 + 1)). values ! k)
                 / of_int (min (int (length values)) (int i + window div 2 + 1)
                           - max 0 (int i - window div 2))"
    if i: "i < length values" for i
  proof -
    let ?lo = "max 0 (int i - window div 2)"
    let ?hi = "min (int (length values)) (int i + window div 2 + 1)"
    have n: "length values \<noteq> 0" using i by auto
    have nth: "[0..<length values] ! i = i" using i by simp
    have "smooth_center values window
            = map (\<lambda>i. sum_list (py_slice values (nat (max 0 (int i - window div 2)))
                       (nat (min (int (length values)) (int i + window div 2 + 1))))
                     / of_int (min (int (length values)) (int i + window div 2 + 1)
                               - max 0 (int i - window div 2)))
                [0..<length values]"
      unfolding smooth_center_def Let_def using w n by simp
    then have step: "smooth_center values window ! i
            = sum_list (py_slice values (nat ?lo) (nat ?hi)) / of_int (?hi - ?lo)"
      using i nth by simp
    have "?lo \<le> int i" using half by simp
    moreover have "int i < ?hi" using half i by simp
    ultimately have le: "nat ?lo \<le> nat ?hi" by linarith
    have "?hi \<le> int (length values)" by simp
    then have hi: "nat ?hi \<le> length values" by linarith
    show ?thesis
      unfolding step sum_list_py_slice[OF le hi] ..
  qed
  then show ?thesis using len False by simp
qed

theorem smooth_center_mean_witness:
  "(1::int) \<le> 3 \<and> smooth_center [0, 0, 1, 0, 0] 3 = [0, 1 / 3, 1 / 3, 1 / 3, 0]
   \<and> length (smooth_center [0, 0, 1, 0, 0] 3) = length [0, 0, 1, 0, 0 :: real]
   \<and> smooth_center [1, 2, 3] 1 = [1, 2, 3]"
proof -
  have a: "smooth_center [0, 0, 1, 0, 0] 3 = [0, 1 / 3, 1 / 3, 1 / 3, 0]"
    by (simp add: smooth_center_def Let_def py_slice_def)
  have b: "length (smooth_center [0, 0, 1, 0, 0] 3) = length [0, 0, 1, 0, 0 :: real]"
    using smooth_center_mean[of 3 "[0, 0, 1, 0, 0]"] by simp
  have c: "smooth_center [1, 2, 3] 1 = [1, 2, 3]"
    using smooth_center_mean[of 1 "[1, 2, 3]"] by simp
  show ?thesis using a b c by simp
qed

subsection \<open>The region of interest at degenerate margins\<close>

lemma count_nonzero_zero_iff:
  "count_nonzero m = 0 \<longleftrightarrow> (\<forall>row \<in> set m. \<forall>b \<in> set row. \<not> b)"
  by (auto simp: count_nonzero_def filter_empty_conv)

lemma make_circular_roi_nth:
  assumes "y < height" "x < width"
  shows "make_circular_roi height width margin ! y ! x
           \<longleftrightarrow> sqrt ((real x - real width / 2)\<^sup>2 + (real y - real height / 2)\<^sup>2)
                 \<le> real (min height width) * (1 / 2 - margin)"
  using assms by (simp add: make_circular_roi_def Let_def)

lemma roi_pixel_degenerate:
  assumes m: "1 / 2 \<le> margin" and y: "y < height" and x: "x < width"
  shows "make_circular_roi height width margin ! y ! x
           \<longleftrightarrow> (margin = 1 / 2 \<and> 2 * y = height \<and> 2 * x = width)"
proof -
  let ?q = "(real x - real width / 2)\<^sup>2 + (real y - real height / 2)\<^sup>2"
  let ?r = "real (min height width) * (1 / 2 - margin)"
  have pos: "0 < real (min height width)" using x y by simp
  show ?thesis
  proof (cases "margin = 1 / 2")
    case True
    then have r0: "?r = 0" by simp
    have q0: "0 \<le> ?q" by simp
    have "sqrt ?q \<le> ?r \<longleftrightarrow> sqrt ?q \<le> 0" by (simp only: r0)
    also have "\<dots> \<longleftrightarrow> ?q \<le> 0" by (rule real_sqrt_le_0_iff)
    also have "\<dots> \<longleftrightarrow> ?q = 0" using q0 by linarith
    also have "\<dots> \<longleftrightarrow> real x = real width / 2 \<and> real y = real height / 2"
      by (simp add: sum_power2_eq_zero_iff)
    also have "\<dots> \<longleftrightarrow> 2 * y = height \<and> 2 * x = width"
    proof -
      have "real x = real width / 2 \<longleftrightarrow> real (2 * x) = real width" by (simp add: field_simps)
      moreover have "real y = real height / 2 \<longleftrightarrow> real (2 * y) = real height" by (simp add: field_simps)
      ultimately show ?thesis by (metis of_nat_eq_iff)
    qed
    finally have F: "sqrt ?q \<le> ?r \<longleftrightarrow> 2 * y = height \<and> 2 * x = width" .
    show ?thesis unfolding make_circular_roi_nth[OF y x] using True F by blast
  next
    case False
    then have "1 / 2 - margin < 0" using m by simp
    then have "?r < 0" using pos by (simp add: mult_pos_neg)
    moreover have "0 \<le> sqrt ?q" by simp
    ultimately have "\<not> sqrt ?q \<le> ?r" by linarith
    then show ?thesis unfolding make_circular_roi_nth[OF y x] using False by blast
  qed
qed

text \<open>
  Claim C8 says that every margin \<open>m \<ge> 0.5\<close> gives an all-false mask. At \<open>m = 0.5\<close> the
  radius is 0 and the comparison \<open>dist \<le> radius\<close> is inclusive, so on a frame with even
  height and width the centre pixel, at distance 0, is inside.
\<close>

theorem roi_margin_half_counterexample:
  "make_circular_roi 2 2 (1 / 2) = [[False, False], [False, True]]
   \<and> count_nonzero (make_circular_roi 2 2 (1 / 2)) = 1"
  by (simp add: make_circular_roi_def count_nonzero_def Let_def real_sqrt_le_0_iff
        upt_conv_Cons numeral_2_eq_2 sum_power2_le_zero_iff)

text \<open>
  Claim C8, amended. For a margin \<open>m \<ge> 0.5\<close> a pixel \<open>(y, x)\<close> is inside the mask
  exactly when \<open>m = 0.5\<close> and the pixel is the exact centre \<open>(H/2, W/2)\<close>; so the mask
  is all-false, and every count over it is zero, when \<open>m > 0.5\<close> or the height or the
  width is odd.
\<close>

theorem roi_degenerate_margin:
  assumes "1 / 2 \<le> margin"
  shows "(\<forall>y < height. \<forall>x < width.
            make_circular_roi height width margin ! y ! x
              \<longleftrightarrow> (margin = 1 / 2 \<and> 2 * y = height \<and> 2 * x = width))
       \<and> (1 / 2 < margin \<or> odd height \<or> odd width
            \<longrightarrow> count_nonzero (make_circular_roi height width margin) = 0)"
proof (intro conjI allI impI)
  fix y x assume "y < height" "x < width"
  then show "make_circular_roi height width margin ! y ! x
              \<longleftrightarrow> (margin = 1 / 2 \<and> 2 * y = height \<and> 2 * x = width)"
    using roi_pixel_degenerate[OF assms] by blast
next
  assume c: "1 / 2 < margin \<or> odd height \<or> odd width"
  have len: "length (make_circular_roi height width margin) = height"
    by (simp add: make_circular_roi_def Let_def)
  have "\<not> b" if row: "row \<in> set (make_circular_roi height width margin)" and b: "b \<in> set row" for row b
  proof -
    obtain y where y: "y < height" "row = make_circular_roi height width margin ! y"
      using row len by (metis in_set_conv_nth)
    have rl: "length row = width" using y by (simp add: make_circular_roi_def Let_def)
    obtain x where x: "x < width" "b = row ! x"
      using b rl by (metis in_set_conv_nth)
    have "b \<longleftrightarrow> (margin = 1 / 2 \<and> 2 * y = height \<and> 2 * x = width)"
      using roi_pixel_degenerate[OF assms y(1) x(1)] x(2) y(2) by simp
    moreover have "\<not> (margin = 1 / 2 \<and> 2 * y = height \<and> 2 * x = width)"
      using c by auto
    ultimately show ?thesis by simp
  qed
  then show "count_nonzero (make_circular_roi height width margin) = 0"
    unfolding count_nonzero_zero_iff by blast
qed

theorem roi_degenerate_margin_witness:
  "(1 / 2 :: real) \<le> 3 / 4 \<and> count_nonzero (make_circular_roi 4 4 (3 / 4)) = 0
   \<and> (make_circular_roi 2 2 (1 / 2) ! 1 ! 1)"
proof -
  have a: "(1 / 2 :: real) \<le> 3 / 4" by simp
  have b: "(1 / 2 :: real) \<le> 1 / 2" by simp
  show ?thesis
    using roi_degenerate_margin[OF a, of 4 4] roi_degenerate_margin[OF b, of 2 2] by simp
qed

subsection \<open>Shapes and counts of masks\<close>

lemma shape_map_map [simp]: "shape (map (map f) a) = shape a"
  by (cases a) (simp_all add: shape_def)

lemma shape_make_red_mask [simp]: "shape (make_red_mask hsv_of fr s_min v_min) = shape fr"
  by (simp add: make_red_mask_def)

lemma shape_mask_not [simp]: "shape (mask_not a) = shape a"
  by (simp add: mask_not_def)

lemma shape_map2:
  assumes "shape a = shape b"
  shows "shape (map2 (map2 f) a b) = shape a"
proof (cases a)
  case Nil
  then show ?thesis by (simp add: shape_def)
next
  case (Cons r rs)
  then obtain r' rs' where b: "b = r' # rs'" using assms by (cases b) (auto simp: shape_def)
  then show ?thesis using Cons assms by (simp add: shape_def)
qed

lemma mask_and_ok:
  "shape a = shape b \<Longrightarrow> mask_and a b = Inr (map2 (map2 (\<and>)) a b)"
  by (simp add: mask_and_def)

lemma mask_or_ok:
  "shape a = shape b \<Longrightarrow> mask_or a b = Inr (map2 (map2 (\<or>)) a b)"
  by (simp add: mask_or_def)

lemma count_row_and_le:
  "length (filter id (map2 (\<and>) r1 r2)) \<le> length (filter id r2)"
proof (induction r1 arbitrary: r2)
  case Nil
  then show ?case by simp
next
  case (Cons x xs)
  show ?case
  proof (cases r2)
    case Nil
    then show ?thesis by simp
  next
    case (Cons y ys)
    then show ?thesis using Cons.IH[of ys] by auto
  qed
qed

lemma count_row_and_le_left:
  "length (filter id (map2 (\<and>) r1 r2)) \<le> length (filter id r1)"
proof (induction r1 arbitrary: r2)
  case Nil
  then show ?case by simp
next
  case (Cons x xs)
  show ?case
  proof (cases r2)
    case Nil
    then show ?thesis by simp
  next
    case (Cons y ys)
    then show ?thesis using Cons.IH[of ys] by auto
  qed
qed

lemma count_nonzero_Cons: "count_nonzero (r # rs) = length (filter id r) + count_nonzero rs"
  by (simp add: count_nonzero_def)

lemma count_nonzero_Nil: "count_nonzero [] = 0"
  by (simp add: count_nonzero_def)

lemma count_and_le_right:
  "count_nonzero (map2 (map2 (\<and>)) a b) \<le> count_nonzero b"
proof (induction a arbitrary: b)
  case Nil
  then show ?case by (simp add: count_nonzero_Nil)
next
  case (Cons r rs)
  show ?case
  proof (cases b)
    case Nil
    then show ?thesis by (simp add: count_nonzero_Nil)
  next
    case (Cons r' rs')
    then show ?thesis
      using Cons.IH[of rs'] count_row_and_le[of r r']
      by (simp add: count_nonzero_Cons)
  qed
qed

lemma count_and_le_left:
  "count_nonzero (map2 (map2 (\<and>)) a b) \<le> count_nonzero a"
proof (induction a arbitrary: b)
  case Nil
  then show ?case by (simp add: count_nonzero_Nil)
next
  case (Cons r rs)
  show ?case
  proof (cases b)
    case Nil
    then show ?thesis by (simp add: count_nonzero_Nil)
  next
    case (Cons r' rs')
    then show ?thesis
      using Cons.IH[of rs'] count_row_and_le_left[of r r']
      by (simp add: count_nonzero_Cons)
  qed
qed

lemma count_nonzero_le_size:
  assumes "is_array a"
  shows "count_nonzero a \<le> fst (shape a) * snd (shape a)"
proof -
  have "count_nonzero a \<le> length (concat a)"
    by (simp add: count_nonzero_def)
  also have "length (concat a) = sum_list (map length a)" by (simp add: length_concat)
  also have "\<dots> = sum_list (map (\<lambda>_. snd (shape a)) a)"
    by (rule arg_cong[of _ _ sum_list], rule map_cong) (use assms in \<open>auto simp: is_array_def\<close>)
  also have "\<dots> = fst (shape a) * snd (shape a)"
    by (simp add: sum_list_triv shape_def)
  finally show ?thesis .
qed

lemma is_array_map_map: "is_array a \<Longrightarrow> is_array (map (map f) a)"
  by (auto simp: is_array_def)

lemma roi_apply_ok:
  assumes "\<forall>roi. roi_mask = Some roi \<longrightarrow> shape roi = shape a"
  shows "\<exists>m'. roi_apply roi_mask a = Inr m' \<and> shape m' = shape a
            \<and> count_nonzero m' \<le> count_nonzero a
            \<and> (\<forall>roi. roi_mask = Some roi \<longrightarrow> count_nonzero m' \<le> count_nonzero roi)"
proof (cases roi_mask)
  case None
  then show ?thesis by (simp add: roi_apply_def)
next
  case (Some roi)
  then have sh: "shape a = shape roi" using assms by simp
  have "roi_apply roi_mask a = Inr (map2 (map2 (\<and>)) a roi)"
    using Some sh by (simp add: roi_apply_def mask_and_ok)
  moreover have "shape (map2 (map2 (\<and>)) a roi) = shape a" by (rule shape_map2[OF sh])
  moreover have "count_nonzero (map2 (map2 (\<and>)) a roi) \<le> count_nonzero a"
    by (rule count_and_le_left)
  moreover have "count_nonzero (map2 (map2 (\<and>)) a roi) \<le> count_nonzero roi"
    by (rule count_and_le_right)
  ultimately show ?thesis using Some by simp
qed

subsection \<open>An ROI without pixels\<close>

text \<open>
  Claim C7. When an ROI mask without true pixels is supplied (of the shape of the frames),
  \<^verbatim>\<open>compute_red_ratio\<close> returns 0 and \<^verbatim>\<open>compute_red_expansion\<close> returns
  \<open>red_ratio = 0\<close>, \<open>newly_red_ratio = 0\<close>, \<open>bg_stability = 1\<close>, \<open>red_expansion = 0\<close>;
  neither raises, whatever \<open>bg_norm_factor\<close> is.
\<close>

theorem zero_pixel_roi_defaults:
  assumes "count_nonzero roi = 0"
    and "shape roi = shape curr_bgr" and "shape prev_bgr = shape curr_bgr"
  shows "compute_red_ratio hsv_of curr_bgr (Some roi) s_min v_min = Inr 0
       \<and> compute_red_expansion hsv_of gray_of prev_bgr curr_bgr (Some roi) s_min v_min
             bg_norm_factor
           = Inr \<lparr>red_ratio = 0, newly_red_ratio = 0, bg_stability = 1, red_expansion = 0\<rparr>"
proof -
  have c: "roi_apply (Some roi) (make_red_mask hsv_of curr_bgr s_min v_min)
             = Inr (map2 (map2 (\<and>)) (make_red_mask hsv_of curr_bgr s_min v_min) roi)"
    using assms(2) by (simp add: roi_apply_def mask_and_ok)
  have p: "roi_apply (Some roi) (make_red_mask hsv_of prev_bgr s_min v_min)
             = Inr (map2 (map2 (\<and>)) (make_red_mask hsv_of prev_bgr s_min v_min) roi)"
    using assms(2,3) by (simp add: roi_apply_def mask_and_ok)
  have t: "total_pixels_of (Some roi) curr_bgr = 0"
    using assms(1) by (simp add: total_pixels_of_def)
  show ?thesis
    unfolding compute_red_ratio_def compute_red_expansion_def c p bind_res_def Let_def t
    by simp
qed

theorem zero_pixel_roi_defaults_witness:
  "count_nonzero [[False, False]] = 0
   \<and> compute_red_ratio (\<lambda>p. p) [[(0, 255, 255), (0, 255, 255)]] (Some [[False, False]]) 60 40
       = Inr 0
   \<and> compute_red_expansion (\<lambda>p. p) (\<lambda>p. 76) [[(120, 255, 255), (0, 255, 255)]]
         [[(0, 255, 255), (0, 255, 255)]] (Some [[False, False]]) 60 40 0
       = Inr \<lparr>red_ratio = 0, newly_red_ratio = 0, bg_stability = 1, red_expansion = 0\<rparr>"
proof -
  have a: "count_nonzero [[False, False]] = 0" by (simp add: count_nonzero_def)
  have b: "shape [[False, False]] = shape [[(0, 255, 255), (0, 255, 255 :: int)] :: (int \<times> int \<times> int) list]"
    by (simp add: shape_def)
  have c: "shape [[(120, 255, 255), (0, 255, 255 :: int)] :: (int \<times> int \<times> int) list]
            = shape [[(0, 255, 255), (0, 255, 255 :: int)] :: (int \<times> int \<times> int) list]"
    by (simp add: shape_def)
  show ?thesis
    using zero_pixel_roi_defaults[OF a b c, of "\<lambda>p. p" 60 40 "\<lambda>p. 76" 0] a by simp
qed

subsection \<open>The expansion index\<close>

lemma unit_product_bounds:
  fixes n b :: real
  assumes "0 \<le> n" "n \<le> 1" "0 \<le> b" "b \<le> 1"
  shows "0 \<le> n * b \<and> n * b \<le> 1"
  using assms by (simp add: mult_le_one)

lemma stability_bounds:
  fixes d f :: real
  assumes "0 \<le> d" "0 < f"
  shows "0 \<le> 1 - min (d / f) 1 \<and> 1 - min (d / f) 1 \<le> 1"
proof -
  have "0 \<le> d / f" using assms by simp
  then show ?thesis by (simp add: min_def)
qed

text \<open>
  Claim C2. For frames of equal size, an optional ROI mask of that size and
  \<open>bg_norm_factor > 0\<close>, \<^verbatim>\<open>compute_red_expansion\<close> returns a record whose
  \<open>red_expansion\<close> is the product of its \<open>newly_red_ratio\<close> and \<open>bg_stability\<close> and
  lies in \<open>[0, 1]\<close>.
\<close>

theorem red_expansion_product_and_range:
  assumes arr: "is_array curr_bgr"
    and sh: "shape prev_bgr = shape curr_bgr"
    and roi: "\<forall>roi. roi_mask = Some roi \<longrightarrow> shape roi = shape curr_bgr"
    and f: "0 < bg_norm_factor"
  shows "\<exists>r. compute_red_expansion hsv_of gray_of prev_bgr curr_bgr roi_mask s_min v_min
                 bg_norm_factor = Inr r
           \<and> red_expansion r = newly_red_ratio r * bg_stability r
           \<and> 0 \<le> red_expansion r \<and> red_expansion r \<le> 1"
proof -
  let ?rp0 = "make_red_mask hsv_of prev_bgr s_min v_min"
  let ?rc0 = "make_red_mask hsv_of curr_bgr s_min v_min"
  let ?total = "total_pixels_of roi_mask curr_bgr"
  obtain red_prev where rp: "roi_apply roi_mask ?rp0 = Inr red_prev"
    and rp_sh: "shape red_prev = shape curr_bgr"
    using roi_apply_ok[of roi_mask ?rp0] roi sh by auto
  obtain red_curr where rc: "roi_apply roi_mask ?rc0 = Inr red_curr"
    and rc_sh: "shape red_curr = shape curr_bgr"
    and rc_le: "count_nonzero red_curr \<le> count_nonzero ?rc0"
    using roi_apply_ok[of roi_mask ?rc0] roi by auto
  let ?newly0 = "map2 (map2 (\<and>)) red_curr (mask_not red_prev)"
  have n0: "mask_and red_curr (mask_not red_prev) = Inr ?newly0"
    by (rule mask_and_ok) (simp add: rp_sh rc_sh)
  have n0_sh: "shape ?newly0 = shape curr_bgr"
    using shape_map2[of red_curr "mask_not red_prev" "(\<and>)"] rp_sh rc_sh by simp
  obtain newly_red where nr: "roi_apply roi_mask ?newly0 = Inr newly_red"
    and nr_le: "count_nonzero newly_red \<le> count_nonzero ?newly0"
    and nr_roi: "\<forall>m. roi_mask = Some m \<longrightarrow> count_nonzero newly_red \<le> count_nonzero m"
    using roi_apply_ok[of roi_mask ?newly0] roi n0_sh by auto
  let ?either = "map2 (map2 (\<or>)) red_prev red_curr"
  have ei: "mask_or red_prev red_curr = Inr ?either"
    by (rule mask_or_ok) (simp add: rp_sh rc_sh)
  have ei_sh: "shape (mask_not ?either) = shape curr_bgr"
    using shape_map2[of red_prev red_curr "(\<or>)"] rp_sh rc_sh by simp
  obtain non_red where nn: "roi_apply roi_mask (mask_not ?either) = Inr non_red"
    using roi_apply_ok[of roi_mask "mask_not ?either"] roi ei_sh by auto
  have bound: "count_nonzero newly_red \<le> ?total"
  proof (cases roi_mask)
    case None
    have "count_nonzero newly_red \<le> count_nonzero ?newly0" by (rule nr_le)
    also have "\<dots> \<le> count_nonzero red_curr" by (rule count_and_le_left)
    also have "\<dots> \<le> count_nonzero ?rc0" by (rule rc_le)
    also have "\<dots> \<le> fst (shape ?rc0) * snd (shape ?rc0)"
      by (rule count_nonzero_le_size) (use arr in \<open>simp add: make_red_mask_def is_array_map_map\<close>)
    finally show ?thesis using None by (simp add: total_pixels_of_def)
  next
    case (Some m)
    then show ?thesis using nr_roi by (simp add: total_pixels_of_def)
  qed
  show ?thesis
  proof (cases "?total = 0")
    case True
    have "compute_red_expansion hsv_of gray_of prev_bgr curr_bgr roi_mask s_min v_min bg_norm_factor
            = Inr \<lparr>red_ratio = 0, newly_red_ratio = 0, bg_stability = 1, red_expansion = 0\<rparr>"
      unfolding compute_red_expansion_def rp rc bind_res_def Let_def using True by simp
    then show ?thesis by simp
  next
    case False
    let ?fd = "absdiff (map (map gray_of) prev_bgr) (map (map gray_of) curr_bgr)"
    let ?bg = "if 0 < count_nonzero non_red
               then real (masked_sum ?fd non_red) / real (count_nonzero non_red) else 0"
    let ?n = "real (count_nonzero newly_red) / real ?total"
    let ?b = "1 - min (?bg / bg_norm_factor) 1"
    let ?r = "\<lparr>red_ratio = real (count_nonzero red_curr) / real ?total,
               newly_red_ratio = ?n, bg_stability = ?b, red_expansion = ?n * ?b\<rparr>"
    have res: "compute_red_expansion hsv_of gray_of prev_bgr curr_bgr roi_mask s_min v_min
                 bg_norm_factor = Inr ?r"
      unfolding compute_red_expansion_def rp rc bind_res_def Let_def sum.case n0 nr ei nn
      using False f by simp
    have n01: "0 \<le> ?n" "?n \<le> 1" using bound False by simp_all
    have "0 \<le> ?bg" by simp
    then have b01: "0 \<le> ?b" "?b \<le> 1" using stability_bounds[OF _ f, of ?bg] by blast+
    have "0 \<le> ?n * ?b \<and> ?n * ?b \<le> 1" by (rule unit_product_bounds[OF n01 b01])
    then show ?thesis using res by simp
  qed
qed

theorem red_expansion_product_and_range_witness:
  "is_array [[(120, 255, 255), (0, 255, 255 :: int)] :: (int \<times> int \<times> int) list]
   \<and> (0::real) < 30
   \<and> (\<exists>r. compute_red_expansion (\<lambda>p. p) (\<lambda>p. 76) [[(120, 255, 255), (120, 255, 255)]]
              [[(120, 255, 255), (0, 255, 255)]] None 60 40 30 = Inr r
          \<and> red_expansion r = newly_red_ratio r * bg_stability r
          \<and> 0 \<le> red_expansion r \<and> red_expansion r \<le> 1)"
proof -
  have a: "is_array [[(120, 255, 255), (0, 255, 255 :: int)] :: (int \<times> int \<times> int) list]"
    by (simp add: is_array_def shape_def)
  have s: "shape [[(120, 255, 255), (120, 255, 255 :: int)] :: (int \<times> int \<times> int) list]
            = shape [[(120, 255, 255), (0, 255, 255 :: int)] :: (int \<times> int \<times> int) list]"
    by (simp add: shape_def)
  have r: "\<forall>roi. (None :: bool grid option) = Some roi \<longrightarrow>
             shape roi = shape [[(120, 255, 255), (0, 255, 255 :: int)] :: (int \<times> int \<times> int) list]"
    by simp
  have f: "(0::real) < 30" by simp
  show ?thesis
    by (intro conjI a f red_expansion_product_and_range[OF a s r f])
qed

subsection \<open>A uniform change of all cells\<close>









subsection \<open>The cell grid\<close>

lemma cell_edge_first: "cell_edge h g 0 = 0"
  by (simp add: cell_edge_def py_mul_int_def dbl_round_def py_int_def split: prod.splits)

text \<open>
  In exact arithmetic the last bound \<open>int(g * (h / g))\<close> is \<open>h\<close>; the loss below comes
  from the rounding of \<open>h / g\<close> and of the product.
\<close>

lemma last_edge_exact:
  assumes "0 < g"
  shows "\<lfloor>real_of_int g * (real_of_int h / real_of_int g)\<rfloor> = h"
  using assms by simp

text \<open>
  Claim C9 says that for every \<open>h, w, g \<ge> 1\<close> the cell rectangles partition the frame, the
  last row of cells ending at \<open>h\<close>. For a frame of 480 rows and \<open>grid_size = 11\<close> the code
  computes \<open>h / g\<close> as the binary64 number \<open>6141272219141585 * 2^-47\<close>, a little below
  \<open>480 / 11\<close>; eleven times it rounds to the binary64 number just below 480, and
  \<^verbatim>\<open>int\<close> truncates it to 479. The row edges are the list below: the cells end at
  479 and the pixel row 479, the last of the frame, lies in no cell.
\<close>

theorem cell_rows_miss_last_pixel_row:
  "py_true_div 480 11 = (6141272219141585, - 47)
   \<and> map (cell_edge 480 11) [0, 1, 2, 3, 4, 5, 6, 7, 8, 9, 10, 11]
       = [0, 43, 87, 130, 174, 218, 261, 305, 349, 392, 436, 479]"
  by code_simp

end
